theory Spec2Isabelle
  imports Main "HOL-Library.Word"
begin

section \<open>Data model of \<open>src/stirling/common/event_parser.h\<close>\<close>

text \<open>
  \<open>size_t\<close> is modelled as \<open>nat\<close> with the 64-bit wrap-around written out at the
  additions and subtractions whose operands come from outside the class: the running
  sum of fragment sizes, the difference \<open>pos - size_\<close>, and the sum of the resync
  offset and a position reported by the protocol's parser. Container sizes and
  indices (\<open>curr_seq_\<close>, \<open>prev_size + i\<close>) are bounded by the number of elements held
  in memory and are plain \<open>nat\<close>. \<open>uint64_t\<close> timestamps are only copied and are
  64-bit words. A \<open>std::string_view\<close> is modelled by the bytes it views, and a
  \<open>std::vector\<close> or \<open>std::deque\<close> by the list of its elements.
\<close>

type_synonym size_t = nat
type_synonym uint64 = "64 word"

definition npos :: size_t where
  "npos = 2 ^ 64 - 1"

definition size_add :: "size_t \<Rightarrow> size_t \<Rightarrow> size_t" where
  "size_add a b = (a + b) mod 2 ^ 64"

definition size_sub :: "size_t \<Rightarrow> size_t \<Rightarrow> size_t" where
  "size_sub a b = (a + 2 ^ 64 - b mod 2 ^ 64) mod 2 ^ 64"

record BufferPosition =
  seq_num :: size_t
  offset :: size_t

text \<open>
  Modelled from the spec: \<open>ParseState\<close> is declared in \<open>parse_state.h\<close>, which is
  not among the sources; the specification lists the terminal statuses unknown,
  invalid-data, needs-more-data and success. The event parser only copies the value.
\<close>

datatype ParseState = kUnknown | kInvalid | kNeedsMoreData | kSuccess

record 'pos ParseResult =
  start_positions :: "'pos list"
  end_position :: 'pos
  state :: ParseState

text \<open>
  A \<open>DCHECK\<close> aborts the process in a debug build and is compiled out otherwise. Reads
  outside a container and \<open>remove_prefix\<close> beyond the end of a view are undefined in
  C++; the model stops with \<open>OutOfRange\<close> there.
\<close>

datatype error = DCheckFailed | OutOfRange

section \<open>PositionConverter\<close>

text \<open>
  The private members \<open>curr_seq_\<close>, \<open>size_\<close> and \<open>last_query_pos_\<close>; the field
  for \<open>size_\<close> is called \<open>size_f\<close>.
\<close>

record PositionConverter =
  curr_seq :: size_t
  size_f :: size_t
  last_query_pos :: size_t

definition Reset :: "PositionConverter \<Rightarrow> PositionConverter" where
  "Reset c = c\<lparr>curr_seq := 0, size_f := 0\<rparr>"

text \<open>
  The constructor: the members are initialised to 0 by their default member
  initialisers, then \<open>Reset\<close> runs.
\<close>

definition PositionConverter_new :: PositionConverter where
  "PositionConverter_new = Reset \<lparr>curr_seq = 0, size_f = 0, last_query_pos = 0\<rparr>"

text \<open>The \<open>while\<close> loop of \<open>Convert\<close> together with the final \<open>return\<close>.\<close>

function Convert_loop ::
  "string list \<Rightarrow> size_t \<Rightarrow> PositionConverter \<Rightarrow> BufferPosition \<times> PositionConverter" where
  "Convert_loop msgs pos c =
     (if curr_seq c < length msgs then
        (let msg = msgs ! curr_seq c in
         if pos < size_add (size_f c) (length msg) then
           (\<lparr>seq_num = curr_seq c, offset = size_sub pos (size_f c)\<rparr>, c)
         else
           Convert_loop msgs pos
             (c\<lparr>curr_seq := curr_seq c + 1, size_f := size_add (size_f c) (length msg)\<rparr>))
      else (\<lparr>seq_num = curr_seq c, offset = 0\<rparr>, c))"
  by pat_completeness auto
termination
  by (relation "measure (\<lambda>(msgs, pos, c). length msgs - curr_seq c)") auto

declare Convert_loop.simps [simp del]

text \<open>
  \<open>Convert\<close>: the first argument says whether \<open>DCHECK\<close>s are compiled in. The result
  carries the converter, whose cursor and last queried position the call updates.
\<close>

definition Convert ::
  "bool \<Rightarrow> string list \<Rightarrow> size_t \<Rightarrow> PositionConverter
     \<Rightarrow> error + (BufferPosition \<times> PositionConverter)" where
  "Convert dchecks msgs pos c =
     (if dchecks \<and> \<not> last_query_pos c \<le> pos then Inl DCheckFailed
      else Inr (Convert_loop msgs pos (c\<lparr>last_query_pos := pos\<rparr>)))"

text \<open>
  A batch of queries presented to one converter in order, as the loop of
  \<open>EventParser::ParseFrames\<close> presents them; the first failing query stops the batch.
\<close>

fun Convert_batch ::
  "bool \<Rightarrow> string list \<Rightarrow> size_t list \<Rightarrow> PositionConverter
     \<Rightarrow> error + (BufferPosition list \<times> PositionConverter)" where
  "Convert_batch dchecks msgs [] c = Inr ([], c)"
| "Convert_batch dchecks msgs (q # qs) c =
     (case Convert dchecks msgs q c of
        Inl e \<Rightarrow> Inl e
      | Inr (p, c') \<Rightarrow>
          (case Convert_batch dchecks msgs qs c' of
             Inl e \<Rightarrow> Inl e
           | Inr (ps, c'') \<Rightarrow> Inr (p # ps, c'')))"

text \<open>The sum of the sizes of the first \<open>k\<close> fragments, as a mathematical number.\<close>

definition prefix_size :: "string list \<Rightarrow> nat \<Rightarrow> nat" where
  "prefix_size msgs k = sum_list (map length (take k msgs))"

definition total_size :: "string list \<Rightarrow> nat" where
  "total_size msgs = sum_list (map length msgs)"


section \<open>EventParser\<close>

text \<open>
  Modelled from the spec: \<open>SocketDataEvent\<close> is declared in \<open>socket_trace.h\<close>,
  which is not among the sources. A fragment is the raw bytes of one captured
  syscall and its capture timestamp; \<open>Append\<close> reads them as \<open>event.msg\<close> and
  \<open>event.attr.return_timestamp_ns\<close>.
\<close>

record socket_data_event_attr =
  return_timestamp_ns :: uint64

record SocketDataEvent =
  attr :: socket_data_event_attr
  msg :: string

text \<open>
  \<open>TFrameType\<close> is a template parameter; the parser only writes its member
  \<open>timestamp_ns\<close>. A frame type is any extension of the record \<open>Frame\<close>.
\<close>

record Frame =
  timestamp_ns :: uint64

text \<open>The private members \<open>ts_nses_\<close>, \<open>msgs_\<close> and \<open>msgs_size_\<close>.\<close>

record EventParser =
  ts_nses :: "uint64 list"
  msgs :: "string list"
  msgs_size :: size_t

definition EventParser_new :: EventParser where
  "EventParser_new = \<lparr>ts_nses = [], msgs = [], msgs_size = 0\<rparr>"

definition Append :: "SocketDataEvent \<Rightarrow> EventParser \<Rightarrow> EventParser" where
  "Append event p =
     p\<lparr>msgs := msgs p @ [msg event],
       ts_nses := ts_nses p @ [return_timestamp_ns (attr event)],
       msgs_size := size_add (msgs_size p) (length (msg event))\<rparr>"

text \<open>\<open>Combine\<close> appends every view to an initially empty string, in order.\<close>

definition Combine :: "EventParser \<Rightarrow> string" where
  "Combine p = foldl (\<lambda>result m. result @ m) [] (msgs p)"

text \<open>
  The offset at which parsing starts. The protocol's \<open>FindFrameBoundary\<close> is a
  parameter; it is called with \<open>kStartPos = 1\<close>.
\<close>

definition resync_start_pos ::
  "('m \<Rightarrow> string \<Rightarrow> size_t \<Rightarrow> size_t) \<Rightarrow> 'm \<Rightarrow> string \<Rightarrow> bool \<Rightarrow> size_t" where
  "resync_start_pos FindFrameBoundary type buf resync =
     (if resync then
        (let start_pos = FindFrameBoundary type buf 1
         in if start_pos = npos then 0 else start_pos)
      else 0)"

text \<open>
  The loop that matches timestamps with the parsed frames. The remaining start
  positions are \<open>result.start_positions[i], \<dots>\<close>; \<open>frames\<close> is the caller's deque
  after the protocol's parser has run.
\<close>

fun match_timestamps ::
  "bool \<Rightarrow> EventParser \<Rightarrow> size_t \<Rightarrow> nat \<Rightarrow> size_t list \<Rightarrow> nat \<Rightarrow> PositionConverter
     \<Rightarrow> BufferPosition list \<Rightarrow> 'a Frame_scheme list
     \<Rightarrow> error + (BufferPosition list \<times> 'a Frame_scheme list \<times> PositionConverter)" where
  "match_timestamps dchecks p start_pos prev_size [] i converter positions frames =
     Inr (positions, frames, converter)"
| "match_timestamps dchecks p start_pos prev_size (s # rest) i converter positions frames =
     (case Convert dchecks (msgs p) (size_add start_pos s) converter of
        Inl e \<Rightarrow> Inl e
      | Inr (position, converter') \<Rightarrow>
          if dchecks \<and> \<not> seq_num position < length (msgs p) then Inl DCheckFailed
          else if \<not> prev_size + i < length frames then Inl OutOfRange
          else if \<not> seq_num position < length (ts_nses p) then Inl OutOfRange
          else match_timestamps dchecks p start_pos prev_size rest (i + 1) converter'
                 (positions @ [position])
                 (frames[prev_size + i :=
                    (frames ! (prev_size + i))\<lparr>timestamp_ns := ts_nses p ! seq_num position\<rparr>]))"

text \<open>
  \<open>EventParser::ParseFrames\<close>. The protocol's \<open>FindFrameBoundary\<close> and
  \<open>ParseFrames\<close> are parameters; the latter takes the caller's deque and returns it
  together with its \<open>ParseResult<size_t>\<close>. The result carries the caller's deque
  and the parser, both as the call leaves them.
\<close>

definition ParseFrames ::
  "bool \<Rightarrow> ('m \<Rightarrow> string \<Rightarrow> size_t \<Rightarrow> size_t)
     \<Rightarrow> ('m \<Rightarrow> string \<Rightarrow> 'a Frame_scheme list \<Rightarrow> 'a Frame_scheme list \<times> size_t ParseResult)
     \<Rightarrow> 'm \<Rightarrow> 'a Frame_scheme list \<Rightarrow> bool \<Rightarrow> EventParser
     \<Rightarrow> error + (BufferPosition ParseResult \<times> 'a Frame_scheme list \<times> EventParser)" where
  "ParseFrames dchecks FindFrameBoundary ParseFramesImpl type frames resync p =
     (let buf = Combine p;
          start_pos = resync_start_pos FindFrameBoundary type buf resync;
          prev_size = length frames
      in if length buf < start_pos then Inl OutOfRange
         else
           (let (frames1, result) = ParseFramesImpl type (drop start_pos buf) frames
            in if dchecks \<and> \<not> prev_size \<le> length frames1 then Inl DCheckFailed
               else
                 (case match_timestamps dchecks p start_pos prev_size (start_positions result) 0
                         PositionConverter_new [] frames1 of
                    Inl e \<Rightarrow> Inl e
                  | Inr (positions, frames2, converter) \<Rightarrow>
                      (case Convert dchecks (msgs p) (size_add start_pos (end_position result))
                              converter of
                         Inl e \<Rightarrow> Inl e
                       | Inr (end_pos, converter') \<Rightarrow>
                           Inr (\<lparr>start_positions = positions, end_position = end_pos,
                                 state = state result\<rparr>,
                                frames2,
                                p\<lparr>msgs := [], ts_nses := [], msgs_size := 0\<rparr>)))))"


section \<open>Specification vocabulary\<close>

text \<open>
  The cursor of a converter is consistent with the views \<open>ms\<close> and an offset \<open>pos\<close>
  when it has skipped whole fragments only, \<open>size_\<close> is their total size, and that
  size does not exceed \<open>pos\<close>.
\<close>

definition cursor_ok :: "string list \<Rightarrow> size_t \<Rightarrow> PositionConverter \<Rightarrow> bool" where
  "cursor_ok ms pos c \<longleftrightarrow>
     curr_seq c \<le> length ms \<and> size_f c = prefix_size ms (curr_seq c) \<and> size_f c \<le> pos"

text \<open>
  What a Fragment Position says about a stream offset: inside the stream it names the
  fragment that holds the byte and the byte's index there; at or past the end it is the
  sentinel.
\<close>

definition located :: "string list \<Rightarrow> size_t \<Rightarrow> BufferPosition \<Rightarrow> bool" where
  "located ms pos bp \<longleftrightarrow>
     (if pos < total_size ms
      then seq_num bp < length ms \<and> offset bp < length (ms ! seq_num bp) \<and>
           prefix_size ms (seq_num bp) + offset bp = pos
      else bp = \<lparr>seq_num = length ms, offset = 0\<rparr>)"

text \<open>
  The invariant of a converter between queries: the cursor is consistent with the
  last queried offset.
\<close>

definition conv_inv :: "string list \<Rightarrow> PositionConverter \<Rightarrow> bool" where
  "conv_inv ms c \<longleftrightarrow> cursor_ok ms (last_query_pos c) c"

text \<open>The parser after the fragments \<open>events\<close> have been appended to \<open>p\<close> in order.\<close>

definition Append_all :: "SocketDataEvent list \<Rightarrow> EventParser \<Rightarrow> EventParser" where
  "Append_all events p = foldl (\<lambda>p event. Append event p) p events"

section \<open>Example fragments and protocol adapters\<close>

text \<open>
  The fragments \<open>F0\<close> (10 bytes, timestamp 100) and \<open>F1\<close> (10 bytes, timestamp 200),
  a boundary search that finds nothing and one that finds the start of \<open>F1\<close>, and
  three parsers: one that decodes a single frame starting at offset 12 and consumes
  20 bytes, one that sees only a partial frame, and one that decodes a frame when
  the buffer is exactly the content of \<open>F1\<close> and rejects every other buffer.
\<close>

definition fragment_F0 :: SocketDataEvent where
  "fragment_F0 = \<lparr>attr = \<lparr>return_timestamp_ns = 100\<rparr>, msg = ''0123456789''\<rparr>"

definition fragment_F1 :: SocketDataEvent where
  "fragment_F1 = \<lparr>attr = \<lparr>return_timestamp_ns = 200\<rparr>, msg = ''abcdefghij''\<rparr>"

definition two_fragments :: EventParser where
  "two_fragments = Append fragment_F1 (Append fragment_F0 EventParser_new)"

definition find_none :: "unit \<Rightarrow> string \<Rightarrow> size_t \<Rightarrow> size_t" where
  "find_none type buf start = npos"

definition find_at_10 :: "unit \<Rightarrow> string \<Rightarrow> size_t \<Rightarrow> size_t" where
  "find_at_10 type buf start = 10"

definition parse_one_at_12 ::
  "unit \<Rightarrow> string \<Rightarrow> Frame list \<Rightarrow> Frame list \<times> size_t ParseResult" where
  "parse_one_at_12 type buf frames =
     (frames @ [\<lparr>timestamp_ns = 0\<rparr>],
      \<lparr>start_positions = [12], end_position = 20, state = kSuccess\<rparr>)"

definition parse_partial ::
  "unit \<Rightarrow> string \<Rightarrow> Frame list \<Rightarrow> Frame list \<times> size_t ParseResult" where
  "parse_partial type buf frames =
     (frames, \<lparr>start_positions = [], end_position = 0, state = kNeedsMoreData\<rparr>)"

definition parse_F1_only ::
  "unit \<Rightarrow> string \<Rightarrow> Frame list \<Rightarrow> Frame list \<times> size_t ParseResult" where
  "parse_F1_only type buf frames =
     (if buf = ''abcdefghij''
      then (frames @ [\<lparr>timestamp_ns = 0\<rparr>],
            \<lparr>start_positions = [0], end_position = 10, state = kSuccess\<rparr>)
      else (frames, \<lparr>start_positions = [], end_position = 0, state = kInvalid\<rparr>))"

section \<open>Size arithmetic and prefix sums\<close>

lemma prefix_size_0: "prefix_size ms 0 = 0"
  by (simp add: prefix_size_def)

lemma prefix_size_Suc:
  "k < length ms \<Longrightarrow> prefix_size ms (Suc k) = prefix_size ms k + length (ms ! k)"
  by (simp add: prefix_size_def take_Suc_conv_app_nth)

lemma prefix_size_all: "length ms \<le> k \<Longrightarrow> prefix_size ms k = total_size ms"
  by (simp add: prefix_size_def total_size_def)

lemma prefix_size_le_total: "prefix_size ms k \<le> total_size ms"
proof -
  have "sum_list (map length (take k ms)) + sum_list (map length (drop k ms))
          = sum_list (map length ms)"
    by (metis append_take_drop_id map_append sum_list_append)
  then show ?thesis
    by (simp add: prefix_size_def total_size_def)
qed

lemma size_add_small: "a + b < 2 ^ 64 \<Longrightarrow> size_add a b = a + b"
  by (simp add: size_add_def)

lemma size_sub_small:
  assumes "b \<le> a" and "a < 2 ^ 64"
  shows "size_sub a b = a - b"
proof -
  from assms have "b mod 2 ^ 64 = b" by simp
  then have "size_sub a b = (a + 2 ^ 64 - b) mod 2 ^ 64"
    unfolding size_sub_def by (rule arg_cong)
  also from assms have "a + 2 ^ 64 - b = (a - b) + 2 ^ 64" by simp
  also have "((a - b) + 2 ^ 64) mod 2 ^ 64 = (a - b) mod 2 ^ 64" by simp
  also from assms have "(a - b) mod 2 ^ 64 = a - b" by simp
  finally show ?thesis .
qed

section \<open>The converter's loop and batches of queries\<close>

text \<open>
  From a consistent cursor, and with a total size that is a \<open>size_t\<close>, the loop
  returns the position that belongs to the offset and leaves a consistent cursor.
\<close>

lemma Convert_loop_spec:
  assumes "total_size ms < 2 ^ 64" and "cursor_ok ms pos c"
  shows "located ms pos (fst (Convert_loop ms pos c)) \<and>
         cursor_ok ms pos (snd (Convert_loop ms pos c)) \<and>
         last_query_pos (snd (Convert_loop ms pos c)) = last_query_pos c"
  using assms
proof (induction ms pos c rule: Convert_loop.induct)
  case (1 ms pos c)
  let ?k = "curr_seq c"
  from "1.prems" have k_le: "?k \<le> length ms"
    and sz: "size_f c = prefix_size ms ?k" and sz_le: "size_f c \<le> pos"
    by (simp_all add: cursor_ok_def)
  show ?case
  proof (cases "?k < length ms")
    case False
    with k_le have k_eq: "?k = length ms" by simp
    then have "size_f c = total_size ms"
      using sz by (simp add: prefix_size_all)
    with sz_le have "\<not> pos < total_size ms" by simp
    with False k_eq "1.prems" show ?thesis
      by (simp add: Convert_loop.simps [of ms pos c] located_def)
  next
    case True
    let ?len = "length (ms ! ?k)"
    have next_sz: "prefix_size ms (Suc ?k) = size_f c + ?len"
      using True sz by (simp add: prefix_size_Suc)
    have "prefix_size ms (Suc ?k) \<le> total_size ms"
      by (rule prefix_size_le_total)
    with next_sz "1.prems"(1) have small: "size_f c + ?len < 2 ^ 64" by simp
    then have add: "size_add (size_f c) ?len = size_f c + ?len"
      by (rule size_add_small)
    show ?thesis
    proof (cases "pos < size_f c + ?len")
      case inside: True
      have "pos < total_size ms"
        using inside next_sz prefix_size_le_total [of ms "Suc ?k"] by simp
      moreover have "size_sub pos (size_f c) = pos - size_f c"
        using sz_le inside small by (simp add: size_sub_small)
      ultimately show ?thesis
        using True inside add sz sz_le "1.prems"(2)
        by (simp add: Convert_loop.simps [of ms pos c] located_def)
    next
      case outside: False
      let ?c' = "c\<lparr>curr_seq := ?k + 1, size_f := size_add (size_f c) ?len\<rparr>"
      have ok': "cursor_ok ms pos ?c'"
        using True outside add next_sz by (simp add: cursor_ok_def)
      have step: "Convert_loop ms pos c = Convert_loop ms pos ?c'"
        using True outside add by (simp add: Convert_loop.simps [of ms pos c])
      have "located ms pos (fst (Convert_loop ms pos ?c')) \<and>
            cursor_ok ms pos (snd (Convert_loop ms pos ?c')) \<and>
            last_query_pos (snd (Convert_loop ms pos ?c')) = last_query_pos ?c'"
        using "1.IH" [OF True refl _ "1.prems"(1) ok'] outside add by simp
      then show ?thesis
        by (simp add: step)
    qed
  qed
qed


lemma Convert_loop_last_query_pos:
  "last_query_pos (snd (Convert_loop ms pos c)) = last_query_pos c"
proof (induction ms pos c rule: Convert_loop.induct)
  case (1 ms pos c)
  show ?case
  proof (cases "curr_seq c < length ms \<and>
                \<not> pos < size_add (size_f c) (length (ms ! curr_seq c))")
    case True
    then show ?thesis
      using "1.IH" [OF _ refl] by (simp add: Convert_loop.simps [of ms pos c])
  next
    case False
    then show ?thesis
      by (auto simp add: Convert_loop.simps [of ms pos c] Let_def)
  qed
qed

lemma conv_inv_new: "conv_inv ms PositionConverter_new"
  by (simp add: conv_inv_def cursor_ok_def PositionConverter_new_def Reset_def prefix_size_0)

lemma last_query_pos_new: "last_query_pos PositionConverter_new = 0"
  by (simp add: PositionConverter_new_def Reset_def)

lemma Convert_ok:
  assumes "total_size ms < 2 ^ 64" and "conv_inv ms c" and "last_query_pos c \<le> pos"
  shows "\<exists>bp c'. Convert dchecks ms pos c = Inr (bp, c') \<and> located ms pos bp \<and>
           conv_inv ms c' \<and> last_query_pos c' = pos"
proof -
  let ?c = "c\<lparr>last_query_pos := pos\<rparr>"
  let ?r = "Convert_loop ms pos ?c"
  have "cursor_ok ms pos ?c"
    using assms(2,3) by (simp add: conv_inv_def cursor_ok_def)
  from Convert_loop_spec [OF assms(1) this]
  have "located ms pos (fst ?r)" and "cursor_ok ms pos (snd ?r)"
    and "last_query_pos (snd ?r) = pos"
    by simp_all
  moreover have "Convert dchecks ms pos c = Inr (fst ?r, snd ?r)"
    using assms(3) by (simp add: Convert_def)
  ultimately show ?thesis
    by (intro exI [of _ "fst ?r"] exI [of _ "snd ?r"]) (simp add: conv_inv_def)
qed

lemma Convert_batch_ok:
  assumes "total_size ms < 2 ^ 64" and "conv_inv ms c" and "sorted (last_query_pos c # qs)"
  shows "\<exists>ps c'. Convert_batch dchecks ms qs c = Inr (ps, c') \<and>
           list_all2 (located ms) qs ps \<and> conv_inv ms c' \<and>
           last_query_pos c' = last (last_query_pos c # qs)"
  using assms(2,3)
proof (induction qs arbitrary: c)
  case Nil
  then show ?case by simp
next
  case (Cons q qs)
  from Cons.prems(2) have "last_query_pos c \<le> q" by simp
  from Convert_ok [OF assms(1) Cons.prems(1) this, of dchecks]
  obtain bp c1 where c1: "Convert dchecks ms q c = Inr (bp, c1)" "located ms q bp"
    "conv_inv ms c1" "last_query_pos c1 = q"
    by blast
  from Cons.prems(2) c1(4) have "sorted (last_query_pos c1 # qs)" by simp
  from Cons.IH [OF c1(3) this]
  obtain ps c2 where c2: "Convert_batch dchecks ms qs c1 = Inr (ps, c2)"
    "list_all2 (located ms) qs ps" "conv_inv ms c2"
    "last_query_pos c2 = last (last_query_pos c1 # qs)"
    by blast
  have "Convert_batch dchecks ms (q # qs) c = Inr (bp # ps, c2)"
    using c1(1) c2(1) by simp
  moreover have "last_query_pos c2 = last (last_query_pos c # q # qs)"
    using c2(4) c1(4) by simp
  ultimately show ?case
    using c1(2) c2(2,3) by simp
qed

lemma Convert_batch_failure:
  "Convert_batch True ms qs c = Inl e \<longleftrightarrow> e = DCheckFailed \<and> \<not> sorted (last_query_pos c # qs)"
proof (induction qs arbitrary: c)
  case Nil
  then show ?case by simp
next
  case (Cons q qs)
  show ?case
  proof (cases "last_query_pos c \<le> q")
    case False
    then show ?thesis
      by (auto simp add: Convert_def)
  next
    case True
    let ?r = "Convert_loop ms q (c\<lparr>last_query_pos := q\<rparr>)"
    have conv: "Convert True ms q c = Inr (fst ?r, snd ?r)"
      using True by (simp add: Convert_def)
    have lq: "last_query_pos (snd ?r) = q"
      by (simp add: Convert_loop_last_query_pos)
    have "Convert_batch True ms (q # qs) c = Inl e \<longleftrightarrow>
          Convert_batch True ms qs (snd ?r) = Inl e"
      by (simp add: conv split: sum.splits prod.splits)
    also have "\<dots> \<longleftrightarrow> e = DCheckFailed \<and> \<not> sorted (q # qs)"
      using Cons.IH [of "snd ?r"] lq by simp
    also have "\<dots> \<longleftrightarrow> e = DCheckFailed \<and> \<not> sorted (last_query_pos c # q # qs)"
      unfolding sorted2 using True by simp
    finally show ?thesis .
  qed
qed

text \<open>Without \<open>DCHECK\<close>s no query fails.\<close>

lemma Convert_batch_release: "\<exists>r. Convert_batch False ms qs c = Inr r"
proof (induction qs arbitrary: c)
  case Nil
  then show ?case by simp
next
  case (Cons q qs)
  obtain bp c1 where "Convert False ms q c = Inr (bp, c1)"
    by (simp add: Convert_def) (metis surj_pair)
  moreover from Cons.IH [of c1] obtain r where "Convert_batch False ms qs c1 = Inr r" ..
  ultimately show ?case
    by (cases r) simp
qed



lemma Convert_batch_last_query_pos:
  "Convert_batch dchecks ms qs c = Inr (ps, c') \<Longrightarrow>
     last_query_pos c' = last (last_query_pos c # qs)"
proof (induction qs arbitrary: c ps)
  case Nil
  then show ?case by simp
next
  case (Cons q qs)
  from Cons.prems obtain bp c1 rest where
    c1: "Convert dchecks ms q c = Inr (bp, c1)" and
    rest: "Convert_batch dchecks ms qs c1 = Inr (rest, c')"
    by (auto split: sum.splits prod.splits)
  from c1 have "c1 = snd (Convert_loop ms q (c\<lparr>last_query_pos := q\<rparr>))"
    by (auto simp add: Convert_def split: if_splits)
  then have "last_query_pos c1 = q"
    by (simp add: Convert_loop_last_query_pos)
  with Cons.IH [OF rest] show ?case by simp
qed

lemma sorted_last_Max:
  fixes xs :: "nat list"
  assumes "sorted xs" and "xs \<noteq> []"
  shows "Max (set xs) = last xs"
proof (rule Max_eqI)
  show "finite (set xs)" by simp
  show "last xs \<in> set xs" using assms(2) by simp
  show "y \<le> last xs" if "y \<in> set xs" for y
    using assms(1) that
    by (induction xs) (auto split: if_splits)
qed

section \<open>Claims about the PositionConverter\<close>

text \<open>
  C1. For every list of fragments whose total size is representable as a \<open>size_t\<close>,
  and every non-decreasing batch of offsets that all lie inside the stream, a newly
  constructed converter answers every query of the batch, in a debug build as in a
  release build, and each answer \<open>(index, within-offset)\<close> names a fragment of the list,
  stays inside it, and reconstructs the queried offset: the sizes of the fragments
  before \<open>index\<close> plus \<open>within-offset\<close> give the offset.
\<close>

theorem Convert_batch_reconstructs_offset:
  assumes "total_size ms < 2 ^ 64" and "sorted qs" and "\<forall>q \<in> set qs. q < total_size ms"
  shows "\<exists>ps c. Convert_batch dchecks ms qs PositionConverter_new = Inr (ps, c) \<and>
           length ps = length qs \<and>
           (\<forall>i < length qs.
              seq_num (ps ! i) < length ms \<and>
              offset (ps ! i) < length (ms ! seq_num (ps ! i)) \<and>
              prefix_size ms (seq_num (ps ! i)) + offset (ps ! i) = qs ! i)"
proof -
  have "sorted (last_query_pos PositionConverter_new # qs)"
    using assms(2) by (simp add: last_query_pos_new)
  from Convert_batch_ok [OF assms(1) conv_inv_new this, of dchecks]
  obtain ps c where r: "Convert_batch dchecks ms qs PositionConverter_new = Inr (ps, c)"
    and all: "list_all2 (located ms) qs ps"
    by blast
  from all have len: "length ps = length qs"
    by (simp add: list_all2_lengthD)
  have "seq_num (ps ! i) < length ms \<and>
        offset (ps ! i) < length (ms ! seq_num (ps ! i)) \<and>
        prefix_size ms (seq_num (ps ! i)) + offset (ps ! i) = qs ! i"
    if "i < length qs" for i
  proof -
    from all that have "located ms (qs ! i) (ps ! i)"
      by (rule list_all2_nthD)
    moreover from assms(3) that have "qs ! i < total_size ms" by simp
    ultimately show ?thesis
      by (simp add: located_def)
  qed
  with r len show ?thesis by blast
qed

theorem Convert_batch_reconstructs_offset_witness:
  "total_size [''abc'', [], ''de''] < 2 ^ 64 \<and> sorted [0, 2, 3, 4 :: nat] \<and>
   4 < total_size [''abc'', [], ''de''] \<and>
   Convert_batch True [''abc'', [], ''de''] [0, 2, 3, 4] PositionConverter_new =
     Inr ([\<lparr>seq_num = 0, offset = 0\<rparr>, \<lparr>seq_num = 0, offset = 2\<rparr>,
           \<lparr>seq_num = 2, offset = 0\<rparr>, \<lparr>seq_num = 2, offset = 1\<rparr>],
          \<lparr>curr_seq = 2, size_f = 3, last_query_pos = 4\<rparr>) \<and>
   prefix_size [''abc'', [], ''de''] 2 + 1 = 4"
  using Convert_batch_reconstructs_offset [of "[''abc'', [], ''de'']" "[0, 2, 3, 4]" True]
  by (simp add: total_size_def prefix_size_def Convert_def PositionConverter_new_def Reset_def
      Convert_loop.simps size_add_def size_sub_def)

text \<open>
  C5. A query at an offset equal to or greater than the total size of the fragments
  returns the end-of-stream sentinel \<open>(fragment count, 0)\<close>. This holds for a newly
  constructed converter (\<open>qs = []\<close>) and after any non-decreasing batch of earlier
  queries \<open>qs\<close>; the offset is a \<open>size_t\<close>.
\<close>

theorem Convert_end_sentinel:
  assumes "pos < 2 ^ 64" and "sorted (qs @ [pos])" and "total_size ms \<le> pos"
  shows "\<exists>ps c. Convert_batch dchecks ms (qs @ [pos]) PositionConverter_new =
           Inr (ps @ [\<lparr>seq_num = length ms, offset = 0\<rparr>], c) \<and> length ps = length qs"
proof -
  from assms(1,3) have small: "total_size ms < 2 ^ 64" by simp
  have "sorted (last_query_pos PositionConverter_new # qs @ [pos])"
    using assms(2) by (simp add: last_query_pos_new)
  from Convert_batch_ok [OF small conv_inv_new this, of dchecks]
  obtain rs c where r: "Convert_batch dchecks ms (qs @ [pos]) PositionConverter_new = Inr (rs, c)"
    and all: "list_all2 (located ms) (qs @ [pos]) rs"
    by blast
  from all obtain ps bp where rs: "rs = ps @ [bp]" and "length ps = length qs"
    and "located ms pos bp"
    by (auto simp add: list_all2_append1 list_all2_Cons1)
  with assms(3) have "bp = \<lparr>seq_num = length ms, offset = 0\<rparr>"
    by (simp add: located_def)
  with r rs \<open>length ps = length qs\<close> show ?thesis by simp
qed

theorem Convert_end_sentinel_witness:
  "(5::nat) < 2 ^ 64 \<and> sorted [1, 5 :: nat] \<and> total_size [''abc'', ''de''] \<le> 5 \<and>
   Convert_batch True [''abc'', ''de''] ([1] @ [5]) PositionConverter_new =
     Inr ([\<lparr>seq_num = 0, offset = 1\<rparr>] @ [\<lparr>seq_num = 2, offset = 0\<rparr>],
          \<lparr>curr_seq = 2, size_f = 5, last_query_pos = 5\<rparr>)"
  using Convert_end_sentinel [of 5 "[1]" "[''abc'', ''de'']" True]
  by (simp add: total_size_def Convert_def PositionConverter_new_def Reset_def
      Convert_loop.simps size_add_def size_sub_def)

text \<open>
  C6. With \<open>DCHECK\<close>s compiled in, a batch of queries presented to a newly constructed
  converter trips the check \<open>DCHECK_GE(pos, last_query_pos_)\<close> exactly when the batch
  is not in non-decreasing order, and is answered completely exactly when it is. The
  batch \<open>[5, 3]\<close> trips it.
\<close>

theorem Convert_dcheck_iff_sorted:
  "(Convert_batch True ms qs PositionConverter_new = Inl DCheckFailed \<longleftrightarrow> \<not> sorted qs) \<and>
   ((\<exists>r. Convert_batch True ms qs PositionConverter_new = Inr r) \<longleftrightarrow> sorted qs)"
proof -
  have fail: "Convert_batch True ms qs PositionConverter_new = Inl e \<longleftrightarrow>
              e = DCheckFailed \<and> \<not> sorted qs" for e
    by (simp add: Convert_batch_failure last_query_pos_new)
  have "(\<exists>r. Convert_batch True ms qs PositionConverter_new = Inr r) \<longleftrightarrow>
        \<not> (\<exists>e. Convert_batch True ms qs PositionConverter_new = Inl e)"
    by (cases "Convert_batch True ms qs PositionConverter_new") simp_all
  with fail show ?thesis by simp
qed

theorem Convert_dcheck_iff_sorted_witness:
  "Convert_batch True [''0123456789''] [5, 3] PositionConverter_new = Inl DCheckFailed \<and>
   \<not> sorted [5, 3 :: nat]"
  using Convert_dcheck_iff_sorted [of "[''0123456789'']" "[5, 3]"] by simp

text \<open>
  C10. \<open>Reset\<close> sets the cursor (\<open>curr_seq_\<close> and \<open>size_\<close>) to zero and leaves
  \<open>last_query_pos_\<close> as it is. After a batch of queries that passed the check, the
  recorded position is the largest offset of the batch, and the first query after
  \<open>Reset\<close> trips the check exactly when its offset is smaller than that.
\<close>

theorem Reset_keeps_last_query_pos:
  assumes "qs \<noteq> []" and "Convert_batch True ms qs PositionConverter_new = Inr (ps, c)"
  shows "curr_seq (Reset c) = 0 \<and> size_f (Reset c) = 0 \<and>
         last_query_pos (Reset c) = last_query_pos c \<and>
         last_query_pos (Reset c) = Max (set qs) \<and>
         (Convert True ms pos (Reset c) = Inl DCheckFailed \<longleftrightarrow> pos < Max (set qs))"
proof -
  have "\<not> sorted qs \<Longrightarrow> False"
    using assms(2) Convert_batch_failure [of ms qs PositionConverter_new DCheckFailed]
    by (simp add: last_query_pos_new)
  then have "sorted qs" by blast
  then have "Max (set qs) = last qs"
    using assms(1) by (rule sorted_last_Max)
  moreover have "last_query_pos c = last qs"
    using Convert_batch_last_query_pos [OF assms(2)] assms(1) by simp
  ultimately have "last_query_pos (Reset c) = Max (set qs)"
    by (simp add: Reset_def)
  then show ?thesis
    by (auto simp add: Reset_def Convert_def)
qed

theorem Reset_keeps_last_query_pos_witness:
  "[2, 7 :: nat] \<noteq> [] \<and>
   Convert_batch True [''0123456789''] [2, 7] PositionConverter_new =
     Inr ([\<lparr>seq_num = 0, offset = 2\<rparr>, \<lparr>seq_num = 0, offset = 7\<rparr>],
          \<lparr>curr_seq = 0, size_f = 0, last_query_pos = 7\<rparr>) \<and>
   Reset \<lparr>curr_seq = 0, size_f = 0, last_query_pos = 7\<rparr> =
     \<lparr>curr_seq = 0, size_f = 0, last_query_pos = 7\<rparr> \<and>
   Convert True [''0123456789''] 3
     (Reset \<lparr>curr_seq = 0, size_f = 0, last_query_pos = 7\<rparr>) = Inl DCheckFailed"
proof -
  have run: "Convert_batch True [''0123456789''] [2, 7] PositionConverter_new =
     Inr ([\<lparr>seq_num = 0, offset = 2\<rparr>, \<lparr>seq_num = 0, offset = 7\<rparr>],
          \<lparr>curr_seq = 0, size_f = 0, last_query_pos = 7\<rparr>)"
    by (simp add: Convert_def PositionConverter_new_def Reset_def Convert_loop.simps
        size_add_def size_sub_def)
  have ne: "[2, 7 :: nat] \<noteq> []" by simp
  from Reset_keeps_last_query_pos [OF ne run, of 3] run show ?thesis
    by (simp add: Reset_def)
qed


section \<open>The parse cycle\<close>


lemma foldl_append_concat: "foldl (\<lambda>result m. result @ m) acc xs = acc @ concat xs"
  by (induction xs arbitrary: acc) simp_all

lemma Combine_concat: "Combine p = concat (msgs p)"
  by (simp add: Combine_def foldl_append_concat)

lemma length_Combine: "length (Combine p) = total_size (msgs p)"
  by (simp add: Combine_concat total_size_def length_concat)

lemma match_timestamps_result:
  assumes "match_timestamps dchecks p sp prev ss i conv positions frames =
             Inr (positions', frames', conv')"
  shows "\<exists>ps. positions' = positions @ ps \<and>
           Convert_batch dchecks (msgs p) (map (size_add sp) ss) conv = Inr (ps, conv') \<and>
           length frames' = length frames \<and>
           (\<forall>k < length ss. prev + i + k < length frames \<and>
                             seq_num (ps ! k) < length (ts_nses p)) \<and>
           (\<forall>j < length frames.
              frames' ! j =
                (if prev + i \<le> j \<and> j < prev + i + length ss
                 then (frames ! j)\<lparr>timestamp_ns := ts_nses p ! seq_num (ps ! (j - (prev + i)))\<rparr>
                 else frames ! j))"
  using assms
proof (induction ss arbitrary: i conv positions frames)
  case Nil
  then show ?case by auto
next
  case (Cons s rest)
  let ?b = "prev + i"
  from Cons.prems obtain bp c1 where
    conv: "Convert dchecks (msgs p) (size_add sp s) conv = Inr (bp, c1)"
    by (auto split: sum.splits)
  let ?frames1 = "frames[?b := (frames ! ?b)\<lparr>timestamp_ns := ts_nses p ! seq_num bp\<rparr>]"
  from Cons.prems conv have
    in_frames: "?b < length frames" and in_ts: "seq_num bp < length (ts_nses p)" and
    rec: "match_timestamps dchecks p sp prev rest (i + 1) c1 (positions @ [bp]) ?frames1 =
            Inr (positions', frames', conv')"
    by (auto split: if_splits)
  from Cons.IH [OF rec] obtain ps where
    pos: "positions' = (positions @ [bp]) @ ps" and
    batch: "Convert_batch dchecks (msgs p) (map (size_add sp) rest) c1 = Inr (ps, conv')" and
    len: "length frames' = length ?frames1" and
    rng: "\<forall>k < length rest. prev + (i + 1) + k < length ?frames1 \<and>
                              seq_num (ps ! k) < length (ts_nses p)" and
    upd: "\<forall>j < length ?frames1.
            frames' ! j =
              (if prev + (i + 1) \<le> j \<and> j < prev + (i + 1) + length rest
               then (?frames1 ! j)\<lparr>timestamp_ns :=
                      ts_nses p ! seq_num (ps ! (j - (prev + (i + 1))))\<rparr>
               else ?frames1 ! j)"
    by blast
  have "positions' = positions @ (bp # ps)"
    using pos by simp
  moreover have "Convert_batch dchecks (msgs p) (map (size_add sp) (s # rest)) conv =
                   Inr (bp # ps, conv')"
    using conv batch by simp
  moreover have "length frames' = length frames"
    using len by simp
  moreover have "\<forall>k < length (s # rest). ?b + k < length frames \<and>
                   seq_num ((bp # ps) ! k) < length (ts_nses p)"
  proof (intro allI impI)
    fix k assume "k < length (s # rest)"
    show "?b + k < length frames \<and> seq_num ((bp # ps) ! k) < length (ts_nses p)"
    proof (cases k)
      case 0
      with in_frames in_ts show ?thesis by simp
    next
      case (Suc k')
      with \<open>k < length (s # rest)\<close> have "k' < length rest" by simp
      with rng Suc show ?thesis by simp
    qed
  qed
  moreover have "\<forall>j < length frames.
      frames' ! j =
        (if ?b \<le> j \<and> j < ?b + length (s # rest)
         then (frames ! j)\<lparr>timestamp_ns := ts_nses p ! seq_num ((bp # ps) ! (j - ?b))\<rparr>
         else frames ! j)"
  proof (intro allI impI)
    fix j assume j: "j < length frames"
    then have eq: "frames' ! j =
              (if prev + (i + 1) \<le> j \<and> j < prev + (i + 1) + length rest
               then (?frames1 ! j)\<lparr>timestamp_ns :=
                      ts_nses p ! seq_num (ps ! (j - (prev + (i + 1))))\<rparr>
               else ?frames1 ! j)"
      using upd by simp
    consider "j < ?b" | "j = ?b" | "?b < j"
      by linarith
    then show "frames' ! j =
        (if ?b \<le> j \<and> j < ?b + length (s # rest)
         then (frames ! j)\<lparr>timestamp_ns := ts_nses p ! seq_num ((bp # ps) ! (j - ?b))\<rparr>
         else frames ! j)"
    proof cases
      case 1
      then show ?thesis using eq j by simp
    next
      case 2
      then show ?thesis using eq j by simp
    next
      case 3
      then have "(bp # ps) ! (j - ?b) = ps ! (j - (prev + (i + 1)))"
        by (simp add: nth_Cons')
      with 3 show ?thesis using eq j by simp
    qed
  qed
  ultimately show ?case by blast
qed

lemma match_timestamps_ok:
  assumes "Convert_batch dchecks (msgs p) (map (size_add sp) ss) conv = Inr (ps, conv')"
    and "\<forall>bp \<in> set ps. seq_num bp < length (msgs p)"
    and "length (ts_nses p) = length (msgs p)"
    and "prev + i + length ss \<le> length frames"
  shows "\<exists>frames'. match_timestamps dchecks p sp prev ss i conv positions frames =
           Inr (positions @ ps, frames', conv')"
  using assms(1,2,4)
proof (induction ss arbitrary: i conv positions frames ps)
  case Nil
  then show ?case by simp
next
  case (Cons s rest)
  from Cons.prems(1) obtain bp c1 ps' where
    conv: "Convert dchecks (msgs p) (size_add sp s) conv = Inr (bp, c1)" and
    batch: "Convert_batch dchecks (msgs p) (map (size_add sp) rest) c1 = Inr (ps', conv')" and
    ps: "ps = bp # ps'"
    by (auto split: sum.splits prod.splits)
  let ?frames1 = "frames[prev + i :=
                    (frames ! (prev + i))\<lparr>timestamp_ns := ts_nses p ! seq_num bp\<rparr>]"
  from Cons.prems(2) ps have bp: "seq_num bp < length (msgs p)"
    and rest: "\<forall>bp \<in> set ps'. seq_num bp < length (msgs p)"
    by simp_all
  from Cons.prems(3) have "prev + (i + 1) + length rest \<le> length ?frames1"
    by simp
  from Cons.IH [OF batch rest this, of "positions @ [bp]"]
  obtain frames' where
    "match_timestamps dchecks p sp prev rest (i + 1) c1 (positions @ [bp]) ?frames1 =
       Inr ((positions @ [bp]) @ ps', frames', conv')"
    by blast
  moreover from Cons.prems(3) have "prev + i < length frames" by simp
  ultimately show ?case
    using conv bp ps assms(3) by simp
qed


lemma ParseFrames_InrD:
  assumes "ParseFrames dchecks F P type frames resync p = Inr (result, frames', p')"
    and "sp = resync_start_pos F type (Combine p) resync"
  shows "\<exists>frames1 r conv conv'.
           sp \<le> length (Combine p) \<and>
           P type (drop sp (Combine p)) frames = (frames1, r) \<and>
           match_timestamps dchecks p sp (length frames) (start_positions r) 0
             PositionConverter_new [] frames1 = Inr (start_positions result, frames', conv) \<and>
           Convert dchecks (msgs p) (size_add sp (end_position r)) conv =
             Inr (end_position result, conv') \<and>
           state result = state r \<and> p' = EventParser_new"
  using assms
  by (auto simp add: ParseFrames_def Let_def EventParser_new_def
      split: if_splits prod.splits sum.splits)

lemma ParseFrames_InrI:
  assumes "sp = resync_start_pos F type (Combine p) resync"
    and "sp \<le> length (Combine p)"
    and "P type (drop sp (Combine p)) frames = (frames1, r)"
    and "length frames \<le> length frames1"
    and "match_timestamps dchecks p sp (length frames) (start_positions r) 0
           PositionConverter_new [] frames1 = Inr (positions, frames2, conv)"
    and "Convert dchecks (msgs p) (size_add sp (end_position r)) conv = Inr (end_pos, conv')"
  shows "ParseFrames dchecks F P type frames resync p =
           Inr (\<lparr>start_positions = positions, end_position = end_pos, state = state r\<rparr>,
                frames2, EventParser_new)"
  using assms
  by (simp add: ParseFrames_def Let_def EventParser_new_def)

lemma sorted_map_add:
  fixes ss :: "nat list"
  shows "sorted ss \<Longrightarrow> sorted (map ((+) a) ss)"
  by (induction ss) auto

lemma map_size_add_small:
  assumes "\<forall>s \<in> set ss. a + s < 2 ^ 64"
  shows "map (size_add a) ss = map ((+) a) ss"
  using assms by (simp add: size_add_small)

lemma list_all2_located_in_range:
  assumes "list_all2 (located ms) qs ps" and "\<forall>q \<in> set qs. q < total_size ms"
  shows "\<forall>bp \<in> set ps. seq_num bp < length ms"
proof
  fix bp assume "bp \<in> set ps"
  then obtain k where k: "k < length ps" "ps ! k = bp"
    by (auto simp add: in_set_conv_nth)
  from assms(1) have len: "length qs = length ps"
    by (rule list_all2_lengthD)
  with assms(1) k have "located ms (qs ! k) bp"
    by (auto dest: list_all2_nthD)
  moreover from assms(2) k len have "qs ! k < total_size ms" by simp
  ultimately show "seq_num bp < length ms"
    by (simp add: located_def)
qed


lemma Convert_batch_length:
  "Convert_batch dchecks ms qs c = Inr (ps, c') \<Longrightarrow> length ps = length qs"
  by (induction qs arbitrary: c ps) (auto split: sum.splits prod.splits)

lemma Append_all_snoc: "Append_all (events @ [event]) p = Append event (Append_all events p)"
  by (simp add: Append_all_def)

lemma Append_all_new:
  "msgs (Append_all events EventParser_new) = map msg events \<and>
   ts_nses (Append_all events EventParser_new) = map (\<lambda>e. return_timestamp_ns (attr e)) events \<and>
   msgs_size (Append_all events EventParser_new) = total_size (map msg events) mod 2 ^ 64"
proof (induction events rule: rev_induct)
  case Nil
  show ?case
    by (simp add: Append_all_def EventParser_new_def total_size_def)
next
  case (snoc event events)
  then show ?case
    by (simp add: Append_all_snoc Append_def size_add_def total_size_def mod_add_left_eq)
qed

text \<open>
  With a protocol parser that keeps its contract (start positions in non-decreasing
  order, inside the buffer and not beyond the end of consumption, and at least as
  many frames in the deque as start positions), the call returns: the loop runs to
  its end, and the status is the parser's.
\<close>

lemma ParseFrames_contract:
  fixes frames :: "'a Frame_scheme list"
  assumes inv: "length (ts_nses p) = length (msgs p)"
    and small: "total_size (msgs p) < 2 ^ 64"
    and sp: "sp = resync_start_pos F type (Combine p) resync"
    and parse: "P type (drop sp (Combine p)) frames = (parsed, r)"
    and enough: "length frames + length (start_positions r) \<le> length parsed"
    and ordered: "sorted (start_positions r @ [end_position r])"
    and inside: "\<forall>s \<in> set (start_positions r). sp + s < total_size (msgs p)"
    and end_inside: "sp + end_position r \<le> total_size (msgs p)"
  shows "\<exists>ps frames2 end_pos c1.
           ParseFrames dchecks F P type frames resync p =
             Inr (\<lparr>start_positions = ps, end_position = end_pos, state = state r\<rparr>,
                  frames2, EventParser_new) \<and>
           match_timestamps dchecks p sp (length frames) (start_positions r) 0
             PositionConverter_new [] parsed = Inr (ps, frames2, c1)"
proof -
  let ?ss = "start_positions r"
  let ?qs = "map ((+) sp) ?ss"
  have qs: "map (size_add sp) ?ss = ?qs"
    using inside small by (intro map_size_add_small) auto
  from ordered have sorted_ss: "sorted ?ss" and le_end: "\<forall>s \<in> set ?ss. s \<le> end_position r"
    by (simp_all add: sorted_append)
  have "sorted (last_query_pos PositionConverter_new # ?qs)"
    using sorted_ss by (simp add: last_query_pos_new sorted_map_add)
  from Convert_batch_ok [OF small conv_inv_new this, of dchecks]
  obtain ps c1 where
    batch: "Convert_batch dchecks (msgs p) ?qs PositionConverter_new = Inr (ps, c1)" and
    loc: "list_all2 (located (msgs p)) ?qs ps" and
    inv1: "conv_inv (msgs p) c1" and
    lq: "last_query_pos c1 = last (last_query_pos PositionConverter_new # ?qs)"
    by blast
  have "\<forall>q \<in> set ?qs. q < total_size (msgs p)"
    using inside by simp
  with loc have in_range: "\<forall>bp \<in> set ps. seq_num bp < length (msgs p)"
    by (rule list_all2_located_in_range)
  have "length frames + 0 + length ?ss \<le> length parsed"
    using enough by simp
  from match_timestamps_ok [OF batch [folded qs] in_range inv this, of "[]"]
  obtain frames2 where
    mt: "match_timestamps dchecks p sp (length frames) ?ss 0 PositionConverter_new [] parsed =
           Inr (ps, frames2, c1)"
    by auto
  have end_small: "size_add sp (end_position r) = sp + end_position r"
    using end_inside small by (simp add: size_add_small)
  have "last_query_pos c1 \<le> sp + end_position r"
  proof (cases "?ss = []")
    case True
    with lq show ?thesis by (simp add: last_query_pos_new)
  next
    case False
    then have "last ?qs = sp + last ?ss"
      by (simp add: last_map)
    moreover from False le_end have "last ?ss \<le> end_position r" by simp
    ultimately show ?thesis
      using lq False by simp
  qed
  from Convert_ok [OF small inv1 this, of dchecks]
  obtain end_pos c2 where
    "Convert dchecks (msgs p) (sp + end_position r) c1 = Inr (end_pos, c2)"
    by blast
  then have conv_end:
    "Convert dchecks (msgs p) (size_add sp (end_position r)) c1 = Inr (end_pos, c2)"
    by (simp add: end_small)
  have sp_le: "sp \<le> length (Combine p)"
    using end_inside by (simp add: length_Combine)
  have "length frames \<le> length parsed"
    using enough by simp
  from ParseFrames_InrI [where F = F and P = P and type = type, OF sp sp_le parse this mt conv_end]
  have "ParseFrames dchecks F P type frames resync p =
           Inr (\<lparr>start_positions = ps, end_position = end_pos, state = state r\<rparr>,
                frames2, EventParser_new)" .
  with mt show ?thesis by blast
qed

text \<open>
  What the loop leaves in the caller's deque: the entries at \<open>prev_size\<close>,
  \<open>prev_size + 1\<close>, \<dots>, one per start position, carry the timestamps of the
  fragments named by the positions; every other entry is as the protocol's parser
  left it.
\<close>

lemma match_timestamps_stamps:
  assumes "match_timestamps dchecks p sp prev ss 0 PositionConverter_new [] parsed =
             Inr (ps, frames2, c1)"
  shows "length ps = length ss \<and> length frames2 = length parsed \<and>
         (\<forall>j < length parsed.
            frames2 ! j =
              (if prev \<le> j \<and> j < prev + length ss
               then (parsed ! j)\<lparr>timestamp_ns := ts_nses p ! seq_num (ps ! (j - prev))\<rparr>
               else parsed ! j))"
proof -
  from match_timestamps_result [OF assms] obtain ps' where
    ps: "ps = [] @ ps'" and
    batch: "Convert_batch dchecks (msgs p) (map (size_add sp) ss) PositionConverter_new =
              Inr (ps', c1)" and
    len: "length frames2 = length parsed" and
    upd: "\<forall>j < length parsed.
            frames2 ! j =
              (if prev + 0 \<le> j \<and> j < prev + 0 + length ss
               then (parsed ! j)\<lparr>timestamp_ns := ts_nses p ! seq_num (ps' ! (j - (prev + 0)))\<rparr>
               else parsed ! j)"
    by blast
  from Convert_batch_length [OF batch] ps have "length ps = length ss" by simp
  with len upd ps show ?thesis by simp
qed

section \<open>Claims about the EventParser\<close>

text \<open>
  C2. In every parse cycle over fragments whose total size is a \<open>size_t\<close>, with a
  parser that reports its frame starts in non-decreasing order, inside the buffer and
  not beyond the end of consumption, and that has appended at least as many frames
  as it reports starts, the call returns, and the \<open>i\<close>-th new frame gets the timestamp
  of the fragment named by the \<open>i\<close>-th reported Fragment Position. That position is the
  conversion of the stream offset \<open>start_pos + result.start_positions[i]\<close>: it names
  the fragment holding the byte at that offset and the byte's index in it. For \<open>F0\<close>
  and \<open>F1\<close> and a frame reported at offset 12 the timestamp is 200 and the position
  is \<open>(1, 2)\<close>.
\<close>

theorem ParseFrames_timestamp_attribution:
  fixes frames :: "'a Frame_scheme list"
  assumes inv: "length (ts_nses p) = length (msgs p)"
    and small: "total_size (msgs p) < 2 ^ 64"
    and sp: "sp = resync_start_pos F type (Combine p) resync"
    and parse: "P type (drop sp (Combine p)) frames = (parsed, r)"
    and enough: "length frames + length (start_positions r) \<le> length parsed"
    and ordered: "sorted (start_positions r @ [end_position r])"
    and inside: "\<forall>s \<in> set (start_positions r). sp + s < total_size (msgs p)"
    and end_inside: "sp + end_position r \<le> total_size (msgs p)"
  shows "\<exists>result frames' p'.
           ParseFrames dchecks F P type frames resync p = Inr (result, frames', p') \<and>
           length (start_positions result) = length (start_positions r) \<and>
           (\<forall>i < length (start_positions r).
              seq_num (start_positions result ! i) < length (msgs p) \<and>
              offset (start_positions result ! i) <
                length (msgs p ! seq_num (start_positions result ! i)) \<and>
              prefix_size (msgs p) (seq_num (start_positions result ! i)) +
                offset (start_positions result ! i) = sp + start_positions r ! i \<and>
              timestamp_ns (frames' ! (length frames + i)) =
                ts_nses p ! seq_num (start_positions result ! i))"
proof -
  let ?ss = "start_positions r"
  let ?qs = "map ((+) sp) ?ss"
  have qs: "map (size_add sp) ?ss = ?qs"
    using inside small by (intro map_size_add_small) auto
  from ordered have sorted_ss: "sorted ?ss" and le_end: "\<forall>s \<in> set ?ss. s \<le> end_position r"
    by (simp_all add: sorted_append)
  have "sorted (last_query_pos PositionConverter_new # ?qs)"
    using sorted_ss by (simp add: last_query_pos_new sorted_map_add)
  from Convert_batch_ok [OF small conv_inv_new this, of dchecks]
  obtain ps c1 where
    batch: "Convert_batch dchecks (msgs p) ?qs PositionConverter_new = Inr (ps, c1)" and
    loc: "list_all2 (located (msgs p)) ?qs ps" and
    inv1: "conv_inv (msgs p) c1" and
    lq: "last_query_pos c1 = last (last_query_pos PositionConverter_new # ?qs)"
    by blast
  from loc have len_ps: "length ps = length ?ss"
    by (simp add: list_all2_lengthD [symmetric])
  have "\<forall>q \<in> set ?qs. q < total_size (msgs p)"
    using inside by simp
  with loc have in_range: "\<forall>bp \<in> set ps. seq_num bp < length (msgs p)"
    by (rule list_all2_located_in_range)
  have "length frames + 0 + length ?ss \<le> length parsed"
    using enough by simp
  from match_timestamps_ok [OF batch [folded qs] in_range inv this, of "[]"]
  obtain frames2 where
    mt: "match_timestamps dchecks p sp (length frames) ?ss 0 PositionConverter_new [] parsed =
           Inr (ps, frames2, c1)"
    by auto
  have end_small: "size_add sp (end_position r) = sp + end_position r"
    using end_inside small by (simp add: size_add_small)
  have "last_query_pos c1 \<le> sp + end_position r"
  proof (cases "?ss = []")
    case True
    with lq show ?thesis by (simp add: last_query_pos_new)
  next
    case False
    then have "last ?qs = sp + last ?ss"
      by (simp add: last_map)
    moreover from False le_end have "last ?ss \<le> end_position r" by simp
    ultimately show ?thesis
      using lq False by simp
  qed
  from Convert_ok [OF small inv1 this, of dchecks]
  obtain end_pos c2 where
    "Convert dchecks (msgs p) (sp + end_position r) c1 = Inr (end_pos, c2)"
    by blast
  then have conv_end:
    "Convert dchecks (msgs p) (size_add sp (end_position r)) c1 = Inr (end_pos, c2)"
    by (simp add: end_small)
  have sp_le: "sp \<le> length (Combine p)"
    using end_inside by (simp add: length_Combine)
  have "length frames \<le> length parsed"
    using enough by simp
  from ParseFrames_InrI [where F = F and P = P and type = type, OF sp sp_le parse this mt conv_end]
  have run: "ParseFrames dchecks F P type frames resync p =
           Inr (\<lparr>start_positions = ps, end_position = end_pos, state = state r\<rparr>,
                frames2, EventParser_new)" .
  from match_timestamps_result [OF mt]
  have stamped: "\<forall>j < length parsed.
              frames2 ! j =
                (if length frames + 0 \<le> j \<and> j < length frames + 0 + length ?ss
                 then (parsed ! j)\<lparr>timestamp_ns :=
                        ts_nses p ! seq_num (ps ! (j - (length frames + 0)))\<rparr>
                 else parsed ! j)"
    by auto
  have "seq_num (ps ! i) < length (msgs p) \<and>
        offset (ps ! i) < length (msgs p ! seq_num (ps ! i)) \<and>
        prefix_size (msgs p) (seq_num (ps ! i)) + offset (ps ! i) = sp + ?ss ! i \<and>
        timestamp_ns (frames2 ! (length frames + i)) = ts_nses p ! seq_num (ps ! i)"
    if i: "i < length ?ss" for i
  proof -
    from i have "i < length ?qs" by simp
    with loc have "located (msgs p) (?qs ! i) (ps ! i)"
      by (rule list_all2_nthD)
    moreover from inside i have "?qs ! i < total_size (msgs p)" by simp
    ultimately have "seq_num (ps ! i) < length (msgs p) \<and>
        offset (ps ! i) < length (msgs p ! seq_num (ps ! i)) \<and>
        prefix_size (msgs p) (seq_num (ps ! i)) + offset (ps ! i) = sp + ?ss ! i"
      using i by (simp add: located_def)
    moreover from i enough have "length frames + i < length parsed" by simp
    with stamped i have "timestamp_ns (frames2 ! (length frames + i)) =
        ts_nses p ! seq_num (ps ! i)"
      by simp
    ultimately show ?thesis by simp
  qed
  with run len_ps show ?thesis by simp
qed


theorem ParseFrames_timestamp_attribution_witness:
  "length (ts_nses two_fragments) = length (msgs two_fragments) \<and>
   total_size (msgs two_fragments) < 2 ^ 64 \<and>
   0 = resync_start_pos find_none () (Combine two_fragments) False \<and>
   parse_one_at_12 () (drop 0 (Combine two_fragments)) [] =
     ([\<lparr>timestamp_ns = 0\<rparr>],
      \<lparr>start_positions = [12], end_position = 20, state = kSuccess\<rparr>) \<and>
   sorted ([12] @ [20 :: nat]) \<and>
   0 + 12 < total_size (msgs two_fragments) \<and>
   0 + 20 \<le> total_size (msgs two_fragments) \<and>
   ParseFrames True find_none parse_one_at_12 () [] False two_fragments =
     Inr (\<lparr>start_positions = [\<lparr>seq_num = 1, offset = 2\<rparr>],
           end_position = \<lparr>seq_num = 2, offset = 0\<rparr>, state = kSuccess\<rparr>,
          [\<lparr>timestamp_ns = 200\<rparr>], EventParser_new)"
  using ParseFrames_timestamp_attribution
    [where p = two_fragments and sp = 0 and F = find_none and type = "()" and resync = False
       and P = parse_one_at_12 and frames = "[]" and parsed = "[\<lparr>timestamp_ns = 0\<rparr>]"
       and r = "\<lparr>start_positions = [12], end_position = 20, state = kSuccess\<rparr>"
       and dchecks = True]
  by (simp add: two_fragments_def fragment_F0_def fragment_F1_def find_none_def
      parse_one_at_12_def Append_def EventParser_new_def Combine_def resync_start_pos_def
      total_size_def ParseFrames_def Convert_def PositionConverter_new_def Reset_def
      Convert_loop.simps size_add_def size_sub_def)


text \<open>
  C3. Every call of \<open>ParseFrames\<close> that returns, whatever status the protocol's parser
  reported, leaves the parser with no views, no timestamps and a total size of 0, that
  is, as a newly constructed one. After a following \<open>Append\<close> the parser holds the
  new fragment only, the combined buffer is that fragment's content, and a following
  \<open>ParseFrames\<close> gives what it gives on a new parser with that one fragment.
\<close>

theorem ParseFrames_clears_state:
  assumes "ParseFrames dchecks F P type frames resync p = Inr (result, frames', p')"
  shows "msgs p' = [] \<and> ts_nses p' = [] \<and> msgs_size p' = 0 \<and>
         msgs (Append event p') = [msg event] \<and>
         ts_nses (Append event p') = [return_timestamp_ns (attr event)] \<and>
         msgs_size (Append event p') = length (msg event) mod 2 ^ 64 \<and>
         Combine (Append event p') = msg event \<and>
         ParseFrames dchecks2 F2 P2 type2 frames2 resync2 (Append event p') =
           ParseFrames dchecks2 F2 P2 type2 frames2 resync2 (Append event EventParser_new)"
proof -
  from ParseFrames_InrD [OF assms refl] have "p' = EventParser_new"
    by blast
  then show ?thesis
    by (simp add: EventParser_new_def Append_def size_add_def Combine_concat)
qed

theorem ParseFrames_clears_state_witness:
  "ParseFrames True find_none parse_partial () [] False two_fragments =
     Inr (\<lparr>start_positions = [], end_position = \<lparr>seq_num = 0, offset = 0\<rparr>,
           state = kNeedsMoreData\<rparr>, [], EventParser_new) \<and>
   msgs EventParser_new = [] \<and> ts_nses EventParser_new = [] \<and> msgs_size EventParser_new = 0 \<and>
   Combine (Append fragment_F1 EventParser_new) = ''abcdefghij''"
proof -
  have run: "ParseFrames True find_none parse_partial () [] False two_fragments =
     Inr (\<lparr>start_positions = [], end_position = \<lparr>seq_num = 0, offset = 0\<rparr>,
           state = kNeedsMoreData\<rparr>, [], EventParser_new)"
    by (simp add: two_fragments_def fragment_F0_def fragment_F1_def find_none_def
      parse_partial_def Append_def EventParser_new_def Combine_def resync_start_pos_def
      ParseFrames_def Convert_def PositionConverter_new_def Reset_def
      Convert_loop.simps size_add_def size_sub_def)
  from ParseFrames_clears_state [OF run, of fragment_F1] run show ?thesis
    by (simp add: fragment_F1_def)
qed

text \<open>
  C4. If the boundary search from offset 1 over the combined buffer returns \<open>npos\<close>,
  \<open>ParseFrames\<close> with \<open>resync = true\<close> returns what it returns with
  \<open>resync = false\<close> on the same parser and frames: the same positions, end position,
  status, frames and parser, or the same failure.
\<close>

theorem ParseFrames_resync_fallback:
  assumes "F type (Combine p) 1 = npos"
  shows "ParseFrames dchecks F P type frames True p = ParseFrames dchecks F P type frames False p"
  using assms by (simp add: ParseFrames_def resync_start_pos_def)

theorem ParseFrames_resync_fallback_witness:
  "find_none () (Combine two_fragments) 1 = npos \<and>
   ParseFrames True find_none parse_one_at_12 () [] True two_fragments =
     ParseFrames True find_none parse_one_at_12 () [] False two_fragments"
  using ParseFrames_resync_fallback [of find_none "()" two_fragments True parse_one_at_12 "[]"]
  by (simp add: find_none_def)

text \<open>
  C7. \<open>Append\<close> is a total function of the fragment and the parser and takes no
  protocol function. It puts the fragment's content at the end of the views and its
  timestamp at the end of the timestamps, and adds the fragment's size to the total
  size in \<open>size_t\<close> arithmetic, which is the exact sum whenever that sum is a
  \<open>size_t\<close>; the parser has no other member. An empty fragment is appended like any
  other. The combined buffer grows by the fragment's content.
\<close>

theorem Append_effect:
  "Append event p =
     \<lparr>ts_nses = ts_nses p @ [return_timestamp_ns (attr event)],
      msgs = msgs p @ [msg event],
      msgs_size = (msgs_size p + length (msg event)) mod 2 ^ 64\<rparr> \<and>
   (msgs_size p + length (msg event) < 2 ^ 64 \<longrightarrow>
      msgs_size (Append event p) = msgs_size p + length (msg event)) \<and>
   Combine (Append event p) = Combine p @ msg event"
proof -
  have whole: "Append event p =
     \<lparr>ts_nses = ts_nses p @ [return_timestamp_ns (attr event)],
      msgs = msgs p @ [msg event],
      msgs_size = (msgs_size p + length (msg event)) mod 2 ^ 64\<rparr>"
    by (simp add: Append_def size_add_def)
  have exact: "msgs_size (Append event p) = msgs_size p + length (msg event)"
    if "msgs_size p + length (msg event) < 2 ^ 64"
    using that by (simp add: Append_def size_add_small)
  have "msgs (Append event p) = msgs p @ [msg event]"
    by (simp add: Append_def)
  then have "Combine (Append event p) = Combine p @ msg event"
    by (simp add: Combine_concat)
  with whole exact show ?thesis
    by blast
qed

theorem Append_effect_witness:
  "msgs_size two_fragments + length ([] :: string) < 2 ^ 64 \<and>
   Append \<lparr>attr = \<lparr>return_timestamp_ns = 300\<rparr>, msg = []\<rparr> two_fragments =
     \<lparr>ts_nses = [100, 200, 300], msgs = [''0123456789'', ''abcdefghij'', []],
      msgs_size = 20\<rparr> \<and>
   msgs_size (Append \<lparr>attr = \<lparr>return_timestamp_ns = 300\<rparr>, msg = []\<rparr> two_fragments) =
     msgs_size two_fragments + length ([] :: string)"
  using Append_effect [of "\<lparr>attr = \<lparr>return_timestamp_ns = 300\<rparr>, msg = []\<rparr>" two_fragments]
  by (simp add: two_fragments_def fragment_F0_def fragment_F1_def Append_def
      EventParser_new_def size_add_def)

text \<open>
  C9. For a parser to which the fragments \<open>events\<close> have been appended since it was
  new or last cleared, the combined buffer is the concatenation of their contents in
  order of appending; the tracked total size is its length as a \<open>size_t\<close>, hence its
  length whenever that is below \<open>2 ^ 64\<close>. The buffer handed to the protocol's
  parser is this concatenation without its first \<open>start_pos\<close> bytes: whatever
  \<open>(parsed, r)\<close> the parser yields on that buffer, \<open>ParseFrames\<close> depends on the
  parser through this value only, and when the value keeps the parser's contract the
  call returns with the status of \<open>r\<close>, one position per start position of \<open>r\<close>,
  and the frames \<open>parsed\<close>, stamped at the places of the new frames and otherwise
  unchanged.
\<close>

theorem Combine_is_concatenation:
  fixes frames :: "'a Frame_scheme list"
  assumes built: "p = Append_all events EventParser_new"
    and sp: "sp = resync_start_pos F type (Combine p) resync"
    and parse: "P type (drop sp (concat (map msg events))) frames = (parsed, r)"
  shows "Combine p = concat (map msg events) \<and>
         msgs_size p = length (Combine p) mod 2 ^ 64 \<and>
         (length (Combine p) < 2 ^ 64 \<longrightarrow> length (Combine p) = msgs_size p) \<and>
         ParseFrames dchecks F P type frames resync p =
           ParseFrames dchecks F (\<lambda>t buf fs. (parsed, r)) type frames resync p \<and>
         (length (Combine p) < 2 ^ 64 \<and>
          length frames + length (start_positions r) \<le> length parsed \<and>
          sorted (start_positions r @ [end_position r]) \<and>
          (\<forall>s \<in> set (start_positions r). sp + s < length (Combine p)) \<and>
          sp + end_position r \<le> length (Combine p) \<longrightarrow>
          (\<exists>result frames'.
             ParseFrames dchecks F P type frames resync p =
               Inr (result, frames', EventParser_new) \<and>
             state result = state r \<and>
             length (start_positions result) = length (start_positions r) \<and>
             length frames' = length parsed \<and>
             (\<forall>j < length parsed.
                frames' ! j =
                  (if length frames \<le> j \<and> j < length frames + length (start_positions r)
                   then (parsed ! j)\<lparr>timestamp_ns :=
                          ts_nses p ! seq_num (start_positions result ! (j - length frames))\<rparr>
                   else parsed ! j))))"
proof -
  have c: "Combine p = concat (map msg events)"
    using built by (simp add: Combine_concat Append_all_new)
  have s: "msgs_size p = length (Combine p) mod 2 ^ 64"
    using built by (simp add: length_Combine Append_all_new)
  have inv: "length (ts_nses p) = length (msgs p)"
    using built by (simp add: Append_all_new)
  have parse': "P type (drop sp (Combine p)) frames = (parsed, r)"
    using parse c by simp
  have dep: "ParseFrames dchecks F P type frames resync p =
           ParseFrames dchecks F (\<lambda>t buf fs. (parsed, r)) type frames resync p"
    using sp parse' by (simp add: ParseFrames_def Let_def)
  have total: "\<exists>result frames'.
             ParseFrames dchecks F P type frames resync p =
               Inr (result, frames', EventParser_new) \<and>
             state result = state r \<and>
             length (start_positions result) = length (start_positions r) \<and>
             length frames' = length parsed \<and>
             (\<forall>j < length parsed.
                frames' ! j =
                  (if length frames \<le> j \<and> j < length frames + length (start_positions r)
                   then (parsed ! j)\<lparr>timestamp_ns :=
                          ts_nses p ! seq_num (start_positions result ! (j - length frames))\<rparr>
                   else parsed ! j))"
    if small: "length (Combine p) < 2 ^ 64"
      and enough: "length frames + length (start_positions r) \<le> length parsed"
      and ordered: "sorted (start_positions r @ [end_position r])"
      and inside: "\<forall>s \<in> set (start_positions r). sp + s < length (Combine p)"
      and end_inside: "sp + end_position r \<le> length (Combine p)"
  proof -
    from small have small': "total_size (msgs p) < 2 ^ 64"
      by (simp add: length_Combine)
    from inside have inside': "\<forall>s \<in> set (start_positions r). sp + s < total_size (msgs p)"
      by (simp add: length_Combine)
    from end_inside have end_inside': "sp + end_position r \<le> total_size (msgs p)"
      by (simp add: length_Combine)
    from ParseFrames_contract [where F = F and P = P and type = type,
        OF inv small' sp parse' enough ordered inside' end_inside', of dchecks]
    obtain ps frames2 end_pos c1 where
      run: "ParseFrames dchecks F P type frames resync p =
              Inr (\<lparr>start_positions = ps, end_position = end_pos, state = state r\<rparr>,
                   frames2, EventParser_new)" and
      mt: "match_timestamps dchecks p sp (length frames) (start_positions r) 0
             PositionConverter_new [] parsed = Inr (ps, frames2, c1)"
      by blast
    from match_timestamps_stamps [OF mt] run show ?thesis
      by simp
  qed
  from c s dep total show ?thesis
    by simp
qed

theorem Combine_is_concatenation_witness:
  "two_fragments = Append_all [fragment_F0, fragment_F1] EventParser_new \<and>
   10 = resync_start_pos find_at_10 () (Combine two_fragments) True \<and>
   parse_F1_only () (drop 10 (concat (map msg [fragment_F0, fragment_F1]))) [] =
     ([\<lparr>timestamp_ns = 0\<rparr>],
      \<lparr>start_positions = [0], end_position = 10, state = kSuccess\<rparr>) \<and>
   Combine two_fragments = ''0123456789abcdefghij'' \<and>
   msgs_size two_fragments = 20 \<and>
   length (Combine two_fragments) < 2 ^ 64 \<and>
   length (Combine two_fragments) = msgs_size two_fragments \<and>
   length ([] :: Frame list) + length [0 :: nat] \<le> length [\<lparr>timestamp_ns = 0\<rparr>] \<and>
   sorted ([0] @ [10 :: nat]) \<and>
   10 + 0 < length (Combine two_fragments) \<and>
   10 + 10 \<le> length (Combine two_fragments) \<and>
   ParseFrames True find_at_10 parse_F1_only () [] True two_fragments =
     Inr (\<lparr>start_positions = [\<lparr>seq_num = 1, offset = 0\<rparr>],
           end_position = \<lparr>seq_num = 2, offset = 0\<rparr>, state = kSuccess\<rparr>,
          [\<lparr>timestamp_ns = 200\<rparr>], EventParser_new) \<and>
   ParseFrames True find_at_10 parse_F1_only () [] False two_fragments =
     Inr (\<lparr>start_positions = [], end_position = \<lparr>seq_num = 0, offset = 0\<rparr>,
           state = kInvalid\<rparr>,
          [], EventParser_new)"
proof -
  have h1: "two_fragments = Append_all [fragment_F0, fragment_F1] EventParser_new"
    by (simp add: two_fragments_def Append_all_def)
  have h2: "10 = resync_start_pos find_at_10 () (Combine two_fragments) True"
    by (simp add: resync_start_pos_def find_at_10_def npos_def)
  have c: "concat (map msg [fragment_F0, fragment_F1]) = ''0123456789abcdefghij''"
    by (simp add: fragment_F0_def fragment_F1_def)
  have h3: "parse_F1_only () (drop 10 (concat (map msg [fragment_F0, fragment_F1]))) [] =
     ([\<lparr>timestamp_ns = 0\<rparr>],
      \<lparr>start_positions = [0], end_position = 10, state = kSuccess\<rparr>)"
    unfolding c by (simp add: parse_F1_only_def)
  have m: "msgs_size two_fragments = 20"
    by (simp add: two_fragments_def fragment_F0_def fragment_F1_def Append_def
        EventParser_new_def size_add_def)
  have run: "ParseFrames True find_at_10 parse_F1_only () [] True two_fragments =
     Inr (\<lparr>start_positions = [\<lparr>seq_num = 1, offset = 0\<rparr>],
           end_position = \<lparr>seq_num = 2, offset = 0\<rparr>, state = kSuccess\<rparr>,
          [\<lparr>timestamp_ns = 200\<rparr>], EventParser_new)"
    by (simp add: two_fragments_def fragment_F0_def fragment_F1_def find_at_10_def
      parse_F1_only_def Append_def EventParser_new_def Combine_def resync_start_pos_def
      ParseFrames_def Convert_def PositionConverter_new_def Reset_def
      Convert_loop.simps size_add_def size_sub_def npos_def)
  have whole: "ParseFrames True find_at_10 parse_F1_only () [] False two_fragments =
     Inr (\<lparr>start_positions = [], end_position = \<lparr>seq_num = 0, offset = 0\<rparr>,
           state = kInvalid\<rparr>,
          [], EventParser_new)"
    by (simp add: two_fragments_def fragment_F0_def fragment_F1_def find_at_10_def
      parse_F1_only_def Append_def EventParser_new_def Combine_def resync_start_pos_def
      ParseFrames_def Convert_def PositionConverter_new_def Reset_def
      Convert_loop.simps size_add_def size_sub_def npos_def)
  from Combine_is_concatenation [where F = find_at_10 and P = parse_F1_only and type = "()" and dchecks = True,
      OF h1 h2 h3]
  have "Combine two_fragments = concat (map msg [fragment_F0, fragment_F1])"
    by (rule conjunct1)
  then have cb: "Combine two_fragments = ''0123456789abcdefghij''"
    by (simp only: c)
  have l: "length (Combine two_fragments) = 20"
    by (simp add: cb)
  have g1: "length (Combine two_fragments) < 2 ^ 64"
    by (simp add: l)
  have g2: "length (Combine two_fragments) = msgs_size two_fragments"
    by (simp add: l m)
  have g3: "length ([] :: Frame list) + length [0 :: nat] \<le> length [\<lparr>timestamp_ns = 0\<rparr>]"
    by simp
  have g4: "sorted ([0] @ [10 :: nat])"
    by simp
  have g5: "10 + 0 < length (Combine two_fragments)"
    by (simp add: l)
  have g6: "10 + 10 \<le> length (Combine two_fragments)"
    by (simp add: l)
  show ?thesis
    by (intro conjI h1 h2 h3 cb m g1 g2 g3 g4 g5 g6 run whole)
qed

text \<open>
  C8. Assume the protocol's parser only appends to the caller's frames, and keeps its
  contract: one start position per frame it appended, in non-decreasing order, inside
  the buffer and not beyond the end of consumption. Then the call of \<open>ParseFrames\<close>
  returns, the frames that were in the caller's deque before the call are unchanged
  and in place, the new frames follow them in the parser's order, and exactly one
  Fragment Position is reported per new frame, in the same order: new frames differ
  from what the parser appended only in the timestamp, which is that of the fragment
  the frame's position names.
\<close>

theorem ParseFrames_appends_only:
  fixes frames :: "'a Frame_scheme list"
  assumes inv: "length (ts_nses p) = length (msgs p)"
    and small: "total_size (msgs p) < 2 ^ 64"
    and sp: "sp = resync_start_pos F type (Combine p) resync"
    and appends: "P type (drop sp (Combine p)) frames = (frames @ new, r)"
    and count: "length (start_positions r) = length new"
    and ordered: "sorted (start_positions r @ [end_position r])"
    and inside: "\<forall>s \<in> set (start_positions r). sp + s < total_size (msgs p)"
    and end_inside: "sp + end_position r \<le> total_size (msgs p)"
  shows "\<exists>result frames' p'.
           ParseFrames dchecks F P type frames resync p = Inr (result, frames', p') \<and>
           take (length frames) frames' = frames \<and>
           length frames' = length frames + length new \<and>
           length (start_positions result) = length new \<and>
           (\<forall>i < length new.
              frames' ! (length frames + i) =
                (new ! i)\<lparr>timestamp_ns := ts_nses p ! seq_num (start_positions result ! i)\<rparr>)"
proof -
  let ?n = "length frames"
  have enough: "?n + length (start_positions r) \<le> length (frames @ new)"
    using count by simp
  from ParseFrames_contract [where F = F and P = P and type = type,
      OF inv small sp appends enough ordered inside end_inside, of dchecks]
  obtain ps frames2 end_pos c1 where
    run: "ParseFrames dchecks F P type frames resync p =
            Inr (\<lparr>start_positions = ps, end_position = end_pos, state = state r\<rparr>,
                 frames2, EventParser_new)" and
    mt: "match_timestamps dchecks p sp ?n (start_positions r) 0
           PositionConverter_new [] (frames @ new) = Inr (ps, frames2, c1)"
    by blast
  from match_timestamps_stamps [OF mt] count have
    len_ps: "length ps = length new" and
    len: "length frames2 = ?n + length new" and
    upd: "\<forall>j < ?n + length new.
            frames2 ! j =
              (if ?n \<le> j \<and> j < ?n + length new
               then ((frames @ new) ! j)\<lparr>timestamp_ns := ts_nses p ! seq_num (ps ! (j - ?n))\<rparr>
               else (frames @ new) ! j)"
    by simp_all
  have old: "take ?n frames2 = frames"
  proof (rule nth_equalityI)
    show "length (take ?n frames2) = length frames"
      using len by simp
    fix j assume "j < length (take ?n frames2)"
    then have j: "j < ?n" by simp
    with upd have "frames2 ! j = (frames @ new) ! j" by simp
    with j show "take ?n frames2 ! j = frames ! j"
      by (simp add: nth_append)
  qed
  have stamped: "frames2 ! (?n + i) =
                   (new ! i)\<lparr>timestamp_ns := ts_nses p ! seq_num (ps ! i)\<rparr>"
    if "i < length new" for i
  proof -
    from that have "?n + i < ?n + length new" by simp
    with upd have "frames2 ! (?n + i) =
              (if ?n \<le> ?n + i \<and> ?n + i < ?n + length new
               then ((frames @ new) ! (?n + i))\<lparr>timestamp_ns :=
                      ts_nses p ! seq_num (ps ! (?n + i - ?n))\<rparr>
               else (frames @ new) ! (?n + i))"
      by blast
    with that show ?thesis by simp
  qed
  from run old len len_ps stamped show ?thesis by simp
qed

theorem ParseFrames_appends_only_witness:
  "length (ts_nses two_fragments) = length (msgs two_fragments) \<and>
   total_size (msgs two_fragments) < 2 ^ 64 \<and>
   0 = resync_start_pos find_none () (Combine two_fragments) False \<and>
   parse_one_at_12 () (drop 0 (Combine two_fragments)) [\<lparr>timestamp_ns = 7\<rparr>] =
     ([\<lparr>timestamp_ns = 7\<rparr>] @ [\<lparr>timestamp_ns = 0\<rparr>],
      \<lparr>start_positions = [12], end_position = 20, state = kSuccess\<rparr>) \<and>
   length [12 :: nat] = length [\<lparr>timestamp_ns = 0\<rparr>] \<and>
   sorted ([12] @ [20 :: nat]) \<and>
   0 + 12 < total_size (msgs two_fragments) \<and>
   0 + 20 \<le> total_size (msgs two_fragments) \<and>
   ParseFrames True find_none parse_one_at_12 () [\<lparr>timestamp_ns = 7\<rparr>] False two_fragments =
     Inr (\<lparr>start_positions = [\<lparr>seq_num = 1, offset = 2\<rparr>],
           end_position = \<lparr>seq_num = 2, offset = 0\<rparr>, state = kSuccess\<rparr>,
          [\<lparr>timestamp_ns = 7\<rparr>, \<lparr>timestamp_ns = 200\<rparr>], EventParser_new)"
  using ParseFrames_appends_only
    [where p = two_fragments and sp = 0 and F = find_none and type = "()" and resync = False
       and P = parse_one_at_12 and frames = "[\<lparr>timestamp_ns = 7\<rparr>]"
       and new = "[\<lparr>timestamp_ns = 0\<rparr>]"
       and r = "\<lparr>start_positions = [12], end_position = 20, state = kSuccess\<rparr>"
       and dchecks = True]
  by (simp add: two_fragments_def fragment_F0_def fragment_F1_def find_none_def
      parse_one_at_12_def Append_def EventParser_new_def Combine_def resync_start_pos_def
      total_size_def ParseFrames_def Convert_def PositionConverter_new_def Reset_def
      Convert_loop.simps size_add_def size_sub_def)

end
